theory Spec2Isabelle
  imports Main
begin

section \<open>Characters and strings of the program\<close>

text \<open>
  Python strings are modelled as \<^typ>\<open>string\<close>: lists of characters with code points
  below 256. The characters the program names get abbreviations.
\<close>

abbreviation comma :: char where "comma \<equiv> CHR '',''"
abbreviation dquote :: char where "dquote \<equiv> CHR 0x22"
abbreviation squote :: char where "squote \<equiv> CHR 0x27"
abbreviation backslash :: char where "backslash \<equiv> CHR 0x5C"
abbreviation newline :: char where "newline \<equiv> CHR 0x0A"

text \<open>
  \<^verbatim>\<open>str.isspace\<close> on one character, which is also the class \<^verbatim>\<open>\s\<close> of a
  pattern over \<^verbatim>\<open>str\<close>: tab, line feed, vertical tab, form feed, carriage return,
  the four separators 0x1C..0x1F, space, next line (0x85) and no-break space (0xA0).
\<close>

definition isspace :: "char \<Rightarrow> bool" where
  "isspace c = (of_char c \<in> set [9, 10, 11, 12, 13, 28, 29, 30, 31, 32, 133, 160 :: nat])"

text \<open>\<^verbatim>\<open>line.rstrip()\<close>: the line without its trailing whitespace.\<close>

definition rstrip :: "string \<Rightarrow> string" where
  "rstrip s = rev (dropWhile isspace (rev s))"

text \<open>\<^verbatim>\<open>sep.join(items)\<close>.\<close>

fun join :: "string \<Rightarrow> string list \<Rightarrow> string" where
  "join sep [] = []"
| "join sep [x] = x"
| "join sep (x # y # ys) = x @ sep @ join sep (y # ys)"

section \<open>The regular expressions of module \<^verbatim>\<open>re\<close>\<close>

text \<open>
  The constructs the two patterns of the program are written with: a literal character,
  a negated character set \<^verbatim>\<open>[^...]\<close>, the class \<^verbatim>\<open>\s\<close>, the dot (any character
  but a line feed), the anchor \<^verbatim>\<open>$\<close>, concatenation, alternation \<^verbatim>\<open>|\<close>, the greedy
  star \<^verbatim>\<open>*\<close> and the lazy plus \<^verbatim>\<open>+?\<close>.
\<close>

datatype regex =
    Lit char
  | NoneOf "char list"
  | Space
  | AnyChar
  | Eol
  | Seq regex regex
  | Alt regex regex
  | Star regex
  | LazyPlus regex

text \<open>
  \<^verbatim>\<open>re\<close> is a backtracking matcher: of all the ways a pattern matches at a position it
  returns the first one in its search order. \<open>matches r s\<close> lists what is left of \<open>s\<close>
  after each way of matching \<open>r\<close> at the start of \<open>s\<close>, in that order: the alternatives
  of \<^verbatim>\<open>|\<close> from left to right, the greedy star one more repetition before stopping,
  the lazy plus stopping before one more repetition. \<^verbatim>\<open>$\<close> matches at the end of the
  string and before a line feed that ends the string. A repetition that consumed nothing
  is not repeated.
\<close>

function matches :: "regex \<Rightarrow> string \<Rightarrow> string list" where
  "matches (Lit c) s = (case s of [] \<Rightarrow> [] | x # xs \<Rightarrow> if x = c then [xs] else [])"
| "matches (NoneOf cs) s =
     (case s of [] \<Rightarrow> [] | x # xs \<Rightarrow> if x \<in> set cs then [] else [xs])"
| "matches Space s = (case s of [] \<Rightarrow> [] | x # xs \<Rightarrow> if isspace x then [xs] else [])"
| "matches AnyChar s = (case s of [] \<Rightarrow> [] | x # xs \<Rightarrow> if x = newline then [] else [xs])"
| "matches Eol s = (if s = [] \<or> s = [newline] then [s] else [])"
| "matches (Seq a b) s = concat (map (matches b) (matches a s))"
| "matches (Alt a b) s = matches a s @ matches b s"
| "matches (Star a) s =
     concat (map (matches (Star a)) (filter (\<lambda>t. length t < length s) (matches a s))) @ [s]"
| "matches (LazyPlus a) s =
     concat (map (\<lambda>t. t # (if length t < length s then matches (LazyPlus a) t else []))
       (matches a s))"
  by pat_completeness auto
termination
  by (relation "measure size <*lex*> measure length") auto

text \<open>\<^verbatim>\<open>re.search(r, s)\<close> as a truth value: \<open>r\<close> matches at some position of \<open>s\<close>.\<close>

fun re_search :: "regex \<Rightarrow> string \<Rightarrow> bool" where
  "re_search r [] = (matches r [] \<noteq> [])"
| "re_search r (x # xs) = (matches r (x # xs) \<noteq> [] \<or> re_search r xs)"

section \<open>\<^verbatim>\<open>CSVWriter\<close>\<close>

text \<open>
  \<^verbatim>\<open>writerow\<close>: an item in which \<^verbatim>\<open>re.search(',', item)\<close> succeeds is put between
  double quotes; the items are joined by commas and written with a line feed. The output
  file is the text written to it so far.
\<close>

definition quote_item :: "string \<Rightarrow> string" where
  "quote_item item = (if re_search (Lit comma) item then [dquote] @ item @ [dquote] else item)"

definition render_row :: "string list \<Rightarrow> string" where
  "render_row row = join [comma] (map quote_item row) @ [newline]"

definition writerow :: "string list \<Rightarrow> string \<Rightarrow> string" where
  "writerow row output_file = output_file @ render_row row"

fun writerows :: "string list list \<Rightarrow> string \<Rightarrow> string" where
  "writerows [] output_file = output_file"
| "writerows (row # data) output_file = writerows data (writerow row output_file)"

section \<open>\<^verbatim>\<open>NaiveCSV.reader\<close>\<close>

text \<open>
  The pattern of the reader,
  \<^verbatim>\<open>s*([^,"']+?|"(?:[^"\\]|\\.)*"|'(?:[^'\\]|\\.)*)\s*(?:,|$)\<close>,
  in three parts: what stands before the capturing group, the group, and what stands
  after it.
\<close>

definition field_prefix :: regex where
  "field_prefix = Star (Lit CHR ''s'')"

definition field_group :: regex where
  "field_group =
     Alt (LazyPlus (NoneOf [comma, dquote, squote]))
    (Alt (Seq (Lit dquote)
           (Seq (Star (Alt (NoneOf [dquote, backslash]) (Seq (Lit backslash) AnyChar)))
                (Lit dquote)))
         (Seq (Lit squote)
              (Star (Alt (NoneOf [squote, backslash]) (Seq (Lit backslash) AnyChar)))))"

definition field_suffix :: regex where
  "field_suffix = Seq (Star Space) (Alt (Lit comma) Eol)"

text \<open>
  Every way the whole pattern matches at the start of \<open>s\<close>, in search order, each as
  the text of the group and what is left of \<open>s\<close> after the match. \<open>group_matches s1\<close>
  are the ways the group and what stands after it match at \<open>s1\<close>, where the prefix left
  off: the group is the text between \<open>s1\<close> and what the group left, \<open>s2\<close>.
\<close>

definition group_matches :: "string \<Rightarrow> (string \<times> string) list" where
  "group_matches s1 =
     concat (map (\<lambda>s2.
       map (\<lambda>s3. (take (length s1 - length s2) s1, s3)) (matches field_suffix s2))
       (matches field_group s1))"

definition field_matches :: "string \<Rightarrow> (string \<times> string) list" where
  "field_matches s = concat (map group_matches (matches field_prefix s))"

text \<open>The match \<^verbatim>\<open>re\<close> reports at the start of \<open>s\<close>: the first one, if there is one.\<close>

definition field_match :: "string \<Rightarrow> (string \<times> string) option" where
  "field_match s = (case field_matches s of [] \<Rightarrow> None | m # _ \<Rightarrow> Some m)"

text \<open>
  \<^verbatim>\<open>r.findall\<close>: the groups of the successive matches, from left to right. The search
  for the next match starts where the last match ended; where the pattern does not match,
  the search moves on by one character. (This pattern matches no empty text, so the
  branch of a match that consumed nothing, where \<^verbatim>\<open>re\<close> moves on by one character
  too, is never taken.)
\<close>

function findall :: "string \<Rightarrow> string list" where
  "findall s =
     (case field_match s of
        Some (g, rest) \<Rightarrow>
          if length rest < length s then g # findall rest
          else g # (case s of [] \<Rightarrow> [] | _ # t \<Rightarrow> findall t)
      | None \<Rightarrow> (case s of [] \<Rightarrow> [] | _ # t \<Rightarrow> findall t))"
  by pat_completeness auto
termination
  by (relation "measure length") auto

text \<open>The fields of one line, and \<^verbatim>\<open>reader\<close>: the fields of every line of the input.\<close>

definition reader_line :: "string \<Rightarrow> string list" where
  "reader_line line = findall (rstrip line)"

definition reader :: "string list \<Rightarrow> string list list" where
  "reader input_file = map reader_line input_file"

section \<open>The platform: \<^verbatim>\<open>float\<close> and module \<^verbatim>\<open>locale\<close>\<close>

text \<open>
  What the program calls outside itself is a parameter of the model: \<^verbatim>\<open>float(field)\<close>
  (no value when it raises \<^verbatim>\<open>ValueError\<close>), the product of two numbers, the alias
  table of module \<^verbatim>\<open>locale\<close>, the C library's \<^verbatim>\<open>setlocale\<close>, and
  \<^verbatim>\<open>locale.currency\<close> with \<^verbatim>\<open>grouping=True\<close> and \<^verbatim>\<open>international=True\<close>, which
  reads the locale state (no value when it raises \<^verbatim>\<open>ValueError\<close>, as it does in the C
  locale). Numbers are of a type \<open>'v\<close> the model does not look into.
\<close>

datatype error = IndexError | ValueError | LocaleError

text \<open>
  The state of module \<^verbatim>\<open>locale\<close> the program touches: the names the C library reports
  for the locales of the categories \<^verbatim>\<open>LC_CTYPE\<close> and \<^verbatim>\<open>LC_MONETARY\<close>, and the
  dictionary \<^verbatim>\<open>locale._override_localeconv\<close>.
\<close>

record locale_state =
  lc_ctype :: string
  lc_monetary :: string
  override_localeconv :: "string \<rightharpoonup> int"

text \<open>
  The platform: \<open>normalize\<close> is \<^verbatim>\<open>locale.normalize\<close> (the alias table of the module);
  \<open>c_setlocale name\<close> is the name the C library reports for \<^verbatim>\<open>LC_MONETARY\<close> once the
  category has been set to \<open>name\<close>, and no value when it refuses the name
  (\<^verbatim>\<open>locale.Error\<close>).
\<close>

record 'v platform =
  float_of :: "string \<Rightarrow> 'v option"
  multiply :: "'v \<Rightarrow> 'v \<Rightarrow> 'v"
  normalize :: "string \<Rightarrow> string"
  c_setlocale :: "string \<Rightarrow> string option"
  currency :: "locale_state \<Rightarrow> 'v \<Rightarrow> bool \<Rightarrow> string option"

text \<open>
  The pair of language code and encoding \<^verbatim>\<open>getlocale\<close> returns and \<^verbatim>\<open>setlocale\<close>
  accepts; either part can be \<^verbatim>\<open>None\<close>.
\<close>

type_synonym locale_pair = "string option \<times> string option"

text \<open>The two parts of \<^verbatim>\<open>s.split(c, 1)\<close> for a string \<open>s\<close> that holds \<open>c\<close>.\<close>

definition before_char :: "char \<Rightarrow> string \<Rightarrow> string" where
  "before_char c s = takeWhile (\<lambda>x. x \<noteq> c) s"

definition after_char :: "char \<Rightarrow> string \<Rightarrow> string" where
  "after_char c s = drop 1 (dropWhile (\<lambda>x. x \<noteq> c) s)"

text \<open>
  \<^verbatim>\<open>locale._parse_localename\<close>: the name is normalized; a modifier after \<^verbatim>\<open>@\<close> is cut
  off, and \<^verbatim>\<open>@euro\<close> on a code without encoding gives the encoding
  \<^verbatim>\<open>iso-8859-15\<close>; a code with a dot gives its first two parts; \<^verbatim>\<open>C\<close> and
  \<^verbatim>\<open>UTF-8\<close> have no language code; every other code raises \<^verbatim>\<open>ValueError\<close>
  (no value).
\<close>

definition parse_localename :: "'v platform \<Rightarrow> string \<Rightarrow> locale_pair option" where
  "parse_localename P localename =
     (let normalized = normalize P localename;
          has_modifier = CHR ''@'' \<in> set normalized;
          modifier = after_char CHR ''@'' normalized;
          code = (if has_modifier then before_char CHR ''@'' normalized else normalized)
      in if has_modifier \<and> modifier = ''euro'' \<and> CHR ''.'' \<notin> set code
         then Some (Some code, Some ''iso-8859-15'')
         else if CHR ''.'' \<in> set code
         then Some (Some (before_char CHR ''.'' code),
                    Some (before_char CHR ''.'' (after_char CHR ''.'' code)))
         else if code = ''C'' then Some (None, None)
         else if code = ''UTF-8'' then Some (None, Some ''UTF-8'')
         else None)"

text \<open>\<^verbatim>\<open>locale._build_localename\<close>: the name of a pair, \<^verbatim>\<open>C\<close> standing for no language.\<close>

definition build_localename :: "locale_pair \<Rightarrow> string" where
  "build_localename localetuple =
     (case localetuple of (language, encoding) \<Rightarrow>
        (let language = (case language of None \<Rightarrow> ''C'' | Some l \<Rightarrow> l)
         in case encoding of None \<Rightarrow> language | Some e \<Rightarrow> language @ ''.'' @ e))"

text \<open>
  \<^verbatim>\<open>locale.getlocale()\<close>: its category defaults to \<^verbatim>\<open>LC_CTYPE\<close>; it parses the name of
  that category and raises \<^verbatim>\<open>ValueError\<close> when the name does not parse.
\<close>

definition getlocale :: "'v platform \<Rightarrow> locale_state \<Rightarrow> error + locale_pair" where
  "getlocale P st =
     (case parse_localename P (lc_ctype st) of
        None \<Rightarrow> Inl ValueError
      | Some localetuple \<Rightarrow> Inr localetuple)"

text \<open>
  \<^verbatim>\<open>locale.setlocale(locale.LC_MONETARY, loc)\<close> for a string \<open>loc\<close>, which goes to the
  C library as it is, and for a pair, which goes there as the normalized name built from
  it.
\<close>

definition setlocale_monetary ::
  "'v platform \<Rightarrow> string \<Rightarrow> locale_state \<Rightarrow> error + locale_state" where
  "setlocale_monetary P loc st =
     (case c_setlocale P loc of
        None \<Rightarrow> Inl LocaleError
      | Some name \<Rightarrow> Inr (st\<lparr>lc_monetary := name\<rparr>))"

definition setlocale_monetary_pair ::
  "'v platform \<Rightarrow> locale_pair \<Rightarrow> locale_state \<Rightarrow> error + locale_state" where
  "setlocale_monetary_pair P localetuple st =
     setlocale_monetary P (normalize P (build_localename localetuple)) st"

section \<open>\<^verbatim>\<open>convert_currency\<close>\<close>

text \<open>
  The function returns the converted text or raises, and leaves a locale state behind in
  both cases: an exception leaves the function where it is raised, past everything that
  follows.
\<close>

definition convert_currency ::
  "'v platform \<Rightarrow> 'v \<Rightarrow> 'v \<Rightarrow> string \<Rightarrow> bool \<Rightarrow> locale_state
     \<Rightarrow> (error + string) \<times> locale_state" where
  "convert_currency P val multiplier loc show_currency_symbol st =
     (let computed_value = multiply P val multiplier
      in case getlocale P st of
           Inl e \<Rightarrow> (Inl e, st)
         | Inr orig_loc \<Rightarrow>
             (case setlocale_monetary P loc st of
                Inl e \<Rightarrow> (Inl e, st)
              | Inr st1 \<Rightarrow>
                  let st2 = st1\<lparr>override_localeconv :=
                             (override_localeconv st1)(''p_cs_precedes'' \<mapsto> 1,
                                                       ''n_cs_precedes'' \<mapsto> 1)\<rparr>
                  in case currency P st2 computed_value show_currency_symbol of
                       None \<Rightarrow> (Inl ValueError, st2)
                     | Some converted \<Rightarrow>
                         (case setlocale_monetary_pair P orig_loc st2 of
                            Inl e \<Rightarrow> (Inl e, st2)
                          | Inr st3 \<Rightarrow> (Inr converted, st3))))"

section \<open>The loop of \<^verbatim>\<open>main\<close>\<close>

text \<open>
  \<^verbatim>\<open>row[i]\<close> and \<^verbatim>\<open>row[i] = v\<close> on a Python list: an index from \<open>0\<close> up to the
  length counts from the front, a negative index down to minus the length counts from
  the end, every other index raises \<^verbatim>\<open>IndexError\<close>.
\<close>

definition getitem :: "'a list \<Rightarrow> int \<Rightarrow> error + 'a" where
  "getitem xs i =
     (let n = int (length xs)
      in if 0 \<le> i \<and> i < n then Inr (xs ! nat i)
         else if - n \<le> i \<and> i < 0 then Inr (xs ! nat (i + n))
         else Inl IndexError)"

definition setitem :: "'a list \<Rightarrow> int \<Rightarrow> 'a \<Rightarrow> error + 'a list" where
  "setitem xs i v =
     (let n = int (length xs)
      in if 0 \<le> i \<and> i < n then Inr (xs[nat i := v])
         else if - n \<le> i \<and> i < 0 then Inr (xs[nat (i + n) := v])
         else Inl IndexError)"

text \<open>
  The body of the loop on one row, on the locale state and the text written to the output
  so far: \<^verbatim>\<open>field = row[args.field-1]\<close>, the conversion of \<^verbatim>\<open>float(field)\<close> with the
  defaults of \<^verbatim>\<open>convert_currency\<close> (locale \<^verbatim>\<open>fr_FR\<close>, no symbol), the assignment to
  \<^verbatim>\<open>row[args.field-1]\<close> and \<^verbatim>\<open>csvwriter.writerow(row)\<close>.
\<close>

definition process_row ::
  "'v platform \<Rightarrow> int \<Rightarrow> 'v \<Rightarrow> string list \<Rightarrow> locale_state \<times> string
     \<Rightarrow> (error + unit) \<times> (locale_state \<times> string)" where
  "process_row P field multiplier row s =
     (case s of (st, out) \<Rightarrow>
        (case getitem row (field - 1) of
           Inl e \<Rightarrow> (Inl e, (st, out))
         | Inr f \<Rightarrow>
             (case float_of P f of
                None \<Rightarrow> (Inl ValueError, (st, out))
              | Some v \<Rightarrow>
                  (case convert_currency P v multiplier ''fr_FR'' False st of
                     (Inl e, st') \<Rightarrow> (Inl e, (st', out))
                   | (Inr converted, st') \<Rightarrow>
                       (case setitem row (field - 1) converted of
                          Inl e \<Rightarrow> (Inl e, (st', out))
                        | Inr row' \<Rightarrow> (Inr (), (st', writerow row' out)))))))"

text \<open>The loop: the first exception ends it, with the state it was raised in.\<close>

fun main_loop ::
  "'v platform \<Rightarrow> int \<Rightarrow> 'v \<Rightarrow> string list list \<Rightarrow> locale_state \<times> string
     \<Rightarrow> (error + unit) \<times> (locale_state \<times> string)" where
  "main_loop P field multiplier [] s = (Inr (), s)"
| "main_loop P field multiplier (row # rows) s =
     (case process_row P field multiplier row s of
        (Inl e, s') \<Rightarrow> (Inl e, s')
      | (Inr u, s') \<Rightarrow> main_loop P field multiplier rows s')"

text \<open>\<^verbatim>\<open>main\<close> without \<^verbatim>\<open>--sane-csv\<close>, on the lines of the input and an empty output.\<close>

definition main ::
  "'v platform \<Rightarrow> int \<Rightarrow> 'v \<Rightarrow> string list \<Rightarrow> locale_state
     \<Rightarrow> (error + unit) \<times> (locale_state \<times> string)" where
  "main P field multiplier input_file st =
     main_loop P field multiplier (reader input_file) (st, [])"

section \<open>A platform to run the model on\<close>

text \<open>
  For runs on concrete input: numbers are naturals written in decimal digits; the alias
  table knows \<^verbatim>\<open>fr_FR\<close> as \<^verbatim>\<open>fr_FR.ISO8859-1\<close>; the C library accepts the names
  \<^verbatim>\<open>C\<close>, \<^verbatim>\<open>fr_FR\<close> and \<^verbatim>\<open>fr_FR.ISO8859-1\<close> and reports them as they are; a
  number is formatted, in every locale but \<^verbatim>\<open>C\<close>, as its digits followed by
  \<^verbatim>\<open>,00\<close>.
\<close>

function decimal :: "nat \<Rightarrow> string" where
  "decimal n =
     (if n < 10 then [char_of (48 + n)]
      else decimal (n div 10) @ [char_of (48 + n mod 10)])"
  by pat_completeness auto
termination
  by (relation "measure id") auto

definition nat_of_decimal :: "string \<Rightarrow> nat option" where
  "nat_of_decimal s =
     (if s \<noteq> [] \<and> list_all (\<lambda>c. c \<in> set ''0123456789'') s
      then Some (foldl (\<lambda>n c. 10 * n + (of_char c - 48)) 0 s)
      else None)"

definition sample_platform :: "nat platform" where
  "sample_platform =
     \<lparr> float_of = nat_of_decimal,
       multiply = (*),
       normalize = (\<lambda>name. if name = ''fr_FR'' then ''fr_FR.ISO8859-1'' else name),
       c_setlocale = (\<lambda>name.
         if name \<in> set [''C'', ''fr_FR'', ''fr_FR.ISO8859-1''] then Some name else None),
       currency = (\<lambda>st v symbol.
         if lc_monetary st = ''C'' then None else Some (decimal v @ '',00'')) \<rparr>"

definition c_locale :: locale_state where
  "c_locale = \<lparr> lc_ctype = ''C'', lc_monetary = ''C'', override_localeconv = Map.empty \<rparr>"

section \<open>Shapes of field text\<close>

text \<open>
  A bare field text: not empty, free of commas and of both quote characters, and not
  ending in whitespace.
\<close>

definition bare :: "string \<Rightarrow> bool" where
  "bare f = (f \<noteq> [] \<and> comma \<notin> set f \<and> dquote \<notin> set f \<and> squote \<notin> set f
     \<and> \<not> isspace (last f))"

text \<open>
  The text between double quotes the pattern reads as one span: characters other than
  the double quote and the backslash, and pairs of a backslash and any character but a
  line feed.
\<close>

fun escaped_body :: "string \<Rightarrow> bool" where
  "escaped_body [] = True"
| "escaped_body (c # cs) =
     (if c = backslash
      then (case cs of [] \<Rightarrow> False | d # ds \<Rightarrow> d \<noteq> newline \<and> escaped_body ds)
      else c \<noteq> dquote \<and> escaped_body cs)"

section \<open>Matching\<close>

text \<open>
  The equations of the two repetitions and of \<open>findall\<close> call themselves on their
  right-hand sides; they are unfolded by hand, one step at a time.
\<close>

declare matches.simps(8) [simp del]
declare matches.simps(9) [simp del]
declare findall.simps [simp del]
declare decimal.simps [simp del]

lemma in_star: "t \<in> set (matches (Star a) s) \<longleftrightarrow>
  t = s \<or> (\<exists>u \<in> set (matches a s). length u < length s \<and> t \<in> set (matches (Star a) u))"
  by (subst matches.simps(8)) auto

lemma in_lazy: "t \<in> set (matches (LazyPlus a) s) \<longleftrightarrow>
  (\<exists>u \<in> set (matches a s). t = u \<or> (length u < length s \<and> t \<in> set (matches (LazyPlus a) u)))"
  by (subst matches.simps(9)) (auto split: if_splits)

lemma matches_suffix: "t \<in> set (matches r s) \<Longrightarrow> \<exists>p. s = p @ t"
proof (induction r s arbitrary: t rule: matches.induct)
  case (1 c s) then show ?case by (cases s) (auto split: if_splits)
next
  case (2 cs s) then show ?case by (cases s) (auto split: if_splits)
next
  case (3 s) then show ?case by (cases s) (auto split: if_splits)
next
  case (4 s) then show ?case by (cases s) (auto split: if_splits)
next
  case (5 s) then show ?case by (auto split: if_splits)
next
  case (6 a b s)
  from "6.prems" obtain u where u: "u \<in> set (matches a s)" and t: "t \<in> set (matches b u)"
    by auto
  from "6.IH"(1)[OF u] obtain p where "s = p @ u" by blast
  moreover from "6.IH"(2)[OF u t] obtain q where "u = q @ t" by blast
  ultimately have "s = (p @ q) @ t" by simp
  then show ?case by blast
next
  case (7 a b s) then show ?case by auto
next
  case (8 a s)
  from "8.prems" in_star[of t a s]
  have "t = s \<or> (\<exists>u \<in> set (matches a s). length u < length s \<and> t \<in> set (matches (Star a) u))"
    by blast
  then show ?case
  proof
    assume "t = s" then show ?thesis by simp
  next
    assume "\<exists>u \<in> set (matches a s). length u < length s \<and> t \<in> set (matches (Star a) u)"
    then obtain u where u: "u \<in> set (matches a s)" "length u < length s" "t \<in> set (matches (Star a) u)"
      by blast
    from "8.IH"(1)[OF u(1)] obtain p where "s = p @ u" by blast
    moreover from "8.IH"(2)[of u t] u obtain q where "u = q @ t" by auto
    ultimately have "s = (p @ q) @ t" by simp
    then show ?thesis by blast
  qed
next
  case (9 a s)
  from "9.prems" obtain u where u: "u \<in> set (matches a s)"
    and t: "t = u \<or> (length u < length s \<and> t \<in> set (matches (LazyPlus a) u))"
    using in_lazy[of t a s] by blast
  from "9.IH"(1)[OF u] obtain p where p: "s = p @ u" by blast
  from t show ?case
  proof
    assume "t = u" with p show ?thesis by blast
  next
    assume a: "length u < length s \<and> t \<in> set (matches (LazyPlus a) u)"
    with "9.IH"(2)[of u t] u obtain q where "u = q @ t" by auto
    with p have "s = (p @ q) @ t" by simp
    then show ?thesis by blast
  qed
qed

subsection \<open>What stands after the group\<close>

lemma isspace_simps [simp]:
  "\<not> isspace comma" "\<not> isspace dquote" "\<not> isspace squote" "\<not> isspace backslash"
  "\<not> isspace CHR ''s''" "isspace newline" "isspace CHR '' ''"
  by (simp_all add: isspace_def)

lemma star_nil [simp]: "matches (Star a) [] = [[]]"
proof -
  have "filter (\<lambda>t. length t < length ([]::string)) (matches a []) = []" by simp
  then show ?thesis by (subst matches.simps(8)) simp
qed

lemma star_space_cons:
  "matches (Star Space) (c # r) = (if isspace c then matches (Star Space) r @ [c # r] else [c # r])"
  by (subst matches.simps(8)) simp

lemma suffix_nil [simp]: "matches field_suffix [] = [[]]"
  by (simp add: field_suffix_def)

lemma suffix_comma [simp]: "matches field_suffix (comma # r) = [r]"
  by (simp add: field_suffix_def star_space_cons)

lemma suffix_other: "\<not> isspace c \<Longrightarrow> c \<noteq> comma \<Longrightarrow> matches field_suffix (c # r) = []"
  by (auto simp add: field_suffix_def star_space_cons)

lemma suffix_space:
  "isspace c \<Longrightarrow> matches field_suffix (c # r) =
     matches field_suffix r @ (if c = newline \<and> r = [] then [[newline]] else [])"
  by (auto simp add: field_suffix_def star_space_cons)

lemma suffix_blocked:
  "d \<noteq> [] \<Longrightarrow> \<not> isspace (last d) \<Longrightarrow> comma \<notin> set d \<Longrightarrow> matches field_suffix (d @ rest) = []"
proof (induction d)
  case Nil then show ?case by simp
next
  case (Cons c d)
  show ?case
  proof (cases "d = []")
    case True
    with Cons.prems suffix_other[of c rest] show ?thesis by auto
  next
    case False
    with Cons have IH: "matches field_suffix (d @ rest) = []" by simp
    show ?thesis
    proof (cases "isspace c")
      case True
      with IH False show ?thesis by (simp add: suffix_space)
    next
      case False
      with Cons.prems suffix_other[of c "d @ rest"] show ?thesis by auto
    qed
  qed
qed

lemma suffix_spaces_comma:
  "list_all isspace ws \<Longrightarrow> matches field_suffix (ws @ comma # r) = [r]"
  by (induction ws) (simp_all add: suffix_space)

lemma suffix_spaces_end:
  "list_all isspace ws \<Longrightarrow> \<exists>rs. matches field_suffix ws = [] # rs"
  by (induction ws) (auto simp add: suffix_space)

subsection \<open>The group and the search\<close>

lemma lazy_nil [simp]: "matches (LazyPlus (NoneOf cs)) [] = []"
  by (subst matches.simps(9)) simp

lemma lazy_cons:
  "matches (LazyPlus (NoneOf cs)) (c # t) =
     (if c \<in> set cs then [] else t # matches (LazyPlus (NoneOf cs)) t)"
  by (subst matches.simps(9)) simp

lemma group_nil [simp]: "matches field_group [] = []"
  by (simp add: field_group_def)

lemma group_plain:
  "c \<noteq> dquote \<Longrightarrow> c \<noteq> squote \<Longrightarrow>
   matches field_group (c # t) = matches (LazyPlus (NoneOf [comma, dquote, squote])) (c # t)"
  by (simp add: field_group_def)

lemma group_dquote:
  "matches field_group (dquote # t) =
     concat (map (matches (Lit dquote))
       (matches (Star (Alt (NoneOf [dquote, backslash]) (Seq (Lit backslash) AnyChar))) t))"
  by (simp add: field_group_def lazy_cons)

lemma group_squote:
  "matches field_group (squote # t) =
     matches (Star (Alt (NoneOf [squote, backslash]) (Seq (Lit backslash) AnyChar))) t"
  by (simp add: field_group_def lazy_cons)

lemma matches_length: "t \<in> set (matches r s) \<Longrightarrow> length t \<le> length s"
  using matches_suffix[of t r s] by auto

lemma matches_set: "t \<in> set (matches r s) \<Longrightarrow> set t \<subseteq> set s"
  using matches_suffix[of t r s] by auto

lemma lazy_consumes:
  "t \<in> set (matches (LazyPlus (NoneOf cs)) s) \<Longrightarrow> length t < length s"
proof (cases s)
  case Nil
  assume "t \<in> set (matches (LazyPlus (NoneOf cs)) s)"
  with Nil show ?thesis by simp
next
  case (Cons c u)
  assume "t \<in> set (matches (LazyPlus (NoneOf cs)) s)"
  with Cons have "t = u \<or> t \<in> set (matches (LazyPlus (NoneOf cs)) u)"
    by (auto simp: lazy_cons split: if_splits)
  then have "length t \<le> length u" using matches_length by blast
  with Cons show ?thesis by simp
qed

lemma lit_consumes: "t \<in> set (matches (Lit c) s) \<Longrightarrow> length t < length s"
  by (cases s) (auto split: if_splits)

lemma group_consumes:
  assumes "t \<in> set (matches field_group s)"
  shows "length t < length s"
proof -
  from assms consider
      (a) "t \<in> set (matches (LazyPlus (NoneOf [comma, dquote, squote])) s)"
    | (b) u where "u \<in> set (matches (Lit dquote) s)" "length t \<le> length u"
    | (c) u where "u \<in> set (matches (Lit squote) s)" "length t \<le> length u"
    by (auto simp: field_group_def dest: matches_length intro: le_trans)
  then show ?thesis
  proof cases
    case a then show ?thesis by (rule lazy_consumes)
  next
    case b then show ?thesis using lit_consumes[of u dquote s] by simp
  next
    case c then show ?thesis using lit_consumes[of u squote s] by simp
  qed
qed

lemma group_matches_consumes:
  assumes "(g, rest) \<in> set (group_matches s)"
  shows "g \<noteq> [] \<and> length rest < length s \<and> length g \<le> length s"
proof -
  from assms obtain s2 where s2: "s2 \<in> set (matches field_group s)"
    and r: "rest \<in> set (matches field_suffix s2)" and g: "g = take (length s - length s2) s"
    by (auto simp: group_matches_def)
  from s2 have "length s2 < length s" by (rule group_consumes)
  moreover from r have "length rest \<le> length s2" by (rule matches_length)
  ultimately show ?thesis using g by auto
qed

lemma field_matches_consumes:
  assumes "(g, rest) \<in> set (field_matches s)"
  shows "g \<noteq> [] \<and> length rest < length s"
proof -
  from assms obtain s1 where s1: "s1 \<in> set (matches field_prefix s)"
    and m: "(g, rest) \<in> set (group_matches s1)"
    by (auto simp: field_matches_def)
  from s1 have "length s1 \<le> length s" by (rule matches_length)
  with group_matches_consumes[OF m] show ?thesis by simp
qed

lemma field_match_Some:
  "field_match s = Some (g, rest) \<Longrightarrow> g \<noteq> [] \<and> length rest < length s"
  using field_matches_consumes[of g rest s]
  by (auto simp: field_match_def split: list.splits)

lemma findall_eq:
  "findall s =
     (case field_match s of
        Some (g, rest) \<Rightarrow> g # findall rest
      | None \<Rightarrow> (case s of [] \<Rightarrow> [] | _ # t \<Rightarrow> findall t))"
  by (subst findall.simps) (auto split: option.splits dest: field_match_Some)

lemma findall_match: "field_match s = Some (g, rest) \<Longrightarrow> findall s = g # findall rest"
  by (subst findall_eq) simp

lemma findall_skip: "field_match (c # t) = None \<Longrightarrow> findall (c # t) = findall t"
  by (subst findall_eq) simp

lemma field_matches_nil [simp]: "field_matches [] = []"
  by (simp add: field_matches_def field_prefix_def group_matches_def)

lemma findall_nil [simp]: "findall [] = []"
  by (subst findall_eq) (simp add: field_match_def)

lemma findall_nonempty: "f \<in> set (findall s) \<Longrightarrow> f \<noteq> []"
proof (induction s rule: findall.induct)
  case (1 s)
  show ?case
  proof (cases "field_match s")
    case None
    show ?thesis
    proof (cases s)
      case Nil with "1.prems" show ?thesis by simp
    next
      case (Cons c t)
      with None "1.prems" have "f \<in> set (findall t)" by (simp add: findall_skip)
      with "1.IH"(1)[OF None Cons] show ?thesis by simp
    qed
  next
    case (Some m)
    obtain g rest where m: "m = (g, rest)" by (cases m)
    from Some m field_match_Some[of s g rest] have g: "g \<noteq> []" and l: "length rest < length s"
      by auto
    from Some m "1.prems" have "f = g \<or> f \<in> set (findall rest)" by (simp add: findall_match)
    then show ?thesis using g "1.IH"(2)[OF Some m[symmetric] l] by auto
  qed
qed

subsection \<open>The first match at a bare field\<close>

lemma lazy_first:
  assumes "f \<noteq> []" "comma \<notin> set f" "dquote \<notin> set f" "squote \<notin> set f"
    "\<not> isspace (last f)" "matches field_suffix t = r # rs"
  shows "\<exists>rs'. concat (map (\<lambda>s2. map (\<lambda>s3. (take (length (p @ f @ t) - length s2) (p @ f @ t), s3))
            (matches field_suffix s2))
          (matches (LazyPlus (NoneOf [comma, dquote, squote])) (f @ t))) = (p @ f, r) # rs'"
  using assms
proof (induction f arbitrary: p)
  case Nil then show ?case by simp
next
  case (Cons c f)
  from Cons.prems have c: "c \<notin> set [comma, dquote, squote]" by auto
  show ?case
  proof (cases "f = []")
    case True
    with c Cons.prems(6) show ?thesis by (simp add: lazy_cons)
  next
    case False
    with Cons.prems have blocked: "matches field_suffix (f @ t) = []"
      by (intro suffix_blocked) auto
    from False Cons.prems Cons.IH[of "p @ [c]"]
    obtain rs' where
      "concat (map (\<lambda>s2. map (\<lambda>s3. (take (length ((p @ [c]) @ f @ t) - length s2) ((p @ [c]) @ f @ t), s3))
            (matches field_suffix s2))
          (matches (LazyPlus (NoneOf [comma, dquote, squote])) (f @ t))) = ((p @ [c]) @ f, r) # rs'"
      by auto
    with c blocked show ?thesis by (simp add: lazy_cons)
  qed
qed

lemma group_matches_bare:
  assumes "bare f" "matches field_suffix t = r # rs"
  shows "\<exists>rs'. group_matches (f @ t) = (f, r) # rs'"
proof -
  from assms(1) obtain c f' where f: "f = c # f'" and c: "c \<noteq> dquote" "c \<noteq> squote"
    by (cases f) (auto simp: bare_def)
  from assms(1) have "f \<noteq> []" "comma \<notin> set f" "dquote \<notin> set f" "squote \<notin> set f"
    "\<not> isspace (last f)" by (auto simp: bare_def)
  from lazy_first[OF this assms(2), of "[]"] obtain rs' where
    "concat (map (\<lambda>s2. map (\<lambda>s3. (take (length (f @ t) - length s2) (f @ t), s3))
            (matches field_suffix s2))
          (matches (LazyPlus (NoneOf [comma, dquote, squote])) (f @ t))) = (f, r) # rs'"
    by auto
  moreover have "matches field_group (f @ t) =
      matches (LazyPlus (NoneOf [comma, dquote, squote])) (f @ t)"
    using f c by (simp add: group_plain)
  ultimately show ?thesis by (simp add: group_matches_def)
qed

lemma prefix_s: "matches field_prefix (CHR ''s'' # u) = matches field_prefix u @ [CHR ''s'' # u]"
  unfolding field_prefix_def by (subst matches.simps(8)) simp

lemma prefix_other: "c \<noteq> CHR ''s'' \<Longrightarrow> matches field_prefix (c # u) = [c # u]"
  unfolding field_prefix_def by (subst matches.simps(8)) simp

lemma field_matches_s:
  "field_matches (CHR ''s'' # u) = field_matches u @ group_matches (CHR ''s'' # u)"
  by (simp add: field_matches_def prefix_s)

lemma field_matches_other: "c \<noteq> CHR ''s'' \<Longrightarrow> field_matches (c # u) = group_matches (c # u)"
  by (simp add: field_matches_def prefix_other)

lemma field_matches_run:
  "c \<noteq> CHR ''s'' \<Longrightarrow>
   \<exists>rs. field_matches (replicate k CHR ''s'' @ c # u) = group_matches (c # u) @ rs"
  by (induction k) (auto simp: field_matches_other field_matches_s)

lemma field_match_first: "field_matches s = m # rs \<Longrightarrow> field_match s = Some m"
  by (simp add: field_match_def)

lemma field_match_run:
  assumes "bare f" "hd f \<noteq> CHR ''s''" "matches field_suffix t = r # rs"
  shows "field_match (replicate k CHR ''s'' @ f @ t) = Some (f, r)"
proof -
  from assms(1) obtain c f' where f: "f = c # f'" by (cases f) (auto simp: bare_def)
  with assms(2) have c: "c \<noteq> CHR ''s''" by simp
  from field_matches_run[OF c, of k "f' @ t"] f obtain m1 where
    "field_matches (replicate k CHR ''s'' @ f @ t) = group_matches (f @ t) @ m1" by auto
  moreover from group_matches_bare[OF assms(1,3)] obtain m2 where
    "group_matches (f @ t) = (f, r) # m2" by blast
  ultimately show ?thesis by (simp add: field_match_first)
qed

lemma findall_run_comma:
  "bare f \<Longrightarrow> hd f \<noteq> CHR ''s'' \<Longrightarrow>
   findall (replicate k CHR ''s'' @ f @ comma # r) = f # findall r"
  using field_match_run[of f "comma # r" r "[]" k] by (simp add: findall_match)

lemma findall_run_end:
  "bare f \<Longrightarrow> hd f \<noteq> CHR ''s'' \<Longrightarrow> findall (replicate k CHR ''s'' @ f) = [f]"
  using field_match_run[of f "[]" "[]" "[]" k] by (simp add: findall_match)

lemma group_matches_comma [simp]: "group_matches (comma # r) = []"
  by (simp add: group_matches_def group_plain lazy_cons)

lemma group_matches_nil [simp]: "group_matches [] = []"
  by (simp add: group_matches_def)

lemma field_match_comma: "field_match (comma # r) = None"
  by (simp add: field_match_def field_matches_other)

lemma findall_comma: "findall (comma # r) = findall r"
  by (simp add: findall_skip field_match_comma)

subsection \<open>Quoted fields, open quotes, the writer and the round trip\<close>

lemma star_bodyd_first:
  "escaped_body f \<Longrightarrow>
   \<exists>rs. matches (Star (Alt (NoneOf [dquote, backslash]) (Seq (Lit backslash) AnyChar)))
          (f @ dquote # rest) = (dquote # rest) # rs"
proof (induction f rule: escaped_body.induct)
  case 1
  show ?case by (subst matches.simps(8)) simp
next
  case (2 c cs)
  show ?case
  proof (cases "c = backslash")
    case True
    with "2.prems" obtain d ds where cs: "cs = d # ds" and d: "d \<noteq> newline"
      and e: "escaped_body ds" by (cases cs) auto
    from "2.IH"(1)[OF True cs e] obtain rs where
      "matches (Star (Alt (NoneOf [dquote, backslash]) (Seq (Lit backslash) AnyChar)))
          (ds @ dquote # rest) = (dquote # rest) # rs" by blast
    with True cs d show ?thesis by (subst matches.simps(8)) simp
  next
    case False
    with "2.prems" have c: "c \<noteq> dquote" and e: "escaped_body cs" by auto
    from "2.IH"(2)[OF False e] obtain rs where
      "matches (Star (Alt (NoneOf [dquote, backslash]) (Seq (Lit backslash) AnyChar)))
          (cs @ dquote # rest) = (dquote # rest) # rs" by blast
    with False c show ?thesis by (subst matches.simps(8)) simp
  qed
qed

lemma group_matches_quoted:
  assumes "escaped_body f" "matches field_suffix rest = r # rs"
  shows "\<exists>rs'. group_matches (dquote # f @ dquote # rest) = (dquote # f @ [dquote], r) # rs'"
proof -
  from star_bodyd_first[OF assms(1), of rest] obtain rs1 where
    "matches (Star (Alt (NoneOf [dquote, backslash]) (Seq (Lit backslash) AnyChar)))
          (f @ dquote # rest) = (dquote # rest) # rs1" by blast
  then have "\<exists>rs2. matches field_group (dquote # f @ dquote # rest) = rest # rs2"
    by (simp add: group_dquote)
  then obtain rs2 where "matches field_group (dquote # f @ dquote # rest) = rest # rs2" ..
  with assms(2) show ?thesis by (simp add: group_matches_def)
qed

lemma field_match_quoted:
  assumes "escaped_body f" "matches field_suffix rest = r # rs"
  shows "field_match (replicate k CHR ''s'' @ dquote # f @ dquote # rest) =
           Some (dquote # f @ [dquote], r)"
proof -
  from field_matches_run[of dquote k "f @ dquote # rest"] obtain m1 where
    "field_matches (replicate k CHR ''s'' @ dquote # f @ dquote # rest) =
       group_matches (dquote # f @ dquote # rest) @ m1" by auto
  moreover from group_matches_quoted[OF assms] obtain m2 where
    "group_matches (dquote # f @ dquote # rest) = (dquote # f @ [dquote], r) # m2" by blast
  ultimately show ?thesis by (simp add: field_match_first)
qed

lemma findall_quoted_comma:
  "escaped_body f \<Longrightarrow>
   findall (replicate k CHR ''s'' @ dquote # f @ dquote # comma # r) =
     (dquote # f @ [dquote]) # findall r"
  using field_match_quoted[of f "comma # r" r "[]" k] by (simp add: findall_match)

lemma findall_quoted_end:
  "escaped_body f \<Longrightarrow>
   findall (replicate k CHR ''s'' @ dquote # f @ [dquote]) = [dquote # f @ [dquote]]"
  using field_match_quoted[of f "[]" "[]" "[]" k] by (simp add: findall_match)

lemma concat_map_nil: "(\<And>u. u \<in> set xs \<Longrightarrow> g u = []) \<Longrightarrow> concat (map g xs) = []"
  by (induction xs) auto

lemma lit_absent: "c \<notin> set u \<Longrightarrow> matches (Lit c) u = []"
  by (cases u) auto

lemma field_match_open_dquote:
  assumes "dquote \<notin> set t"
  shows "field_match (dquote # t) = None"
proof -
  have "matches field_group (dquote # t) = []"
    unfolding group_dquote
  proof (rule concat_map_nil)
    fix u assume "u \<in> set (matches (Star (Alt (NoneOf [dquote, backslash])
        (Seq (Lit backslash) AnyChar))) t)"
    then have "set u \<subseteq> set t" by (rule matches_set)
    with assms have "dquote \<notin> set u" by auto
    then show "matches (Lit dquote) u = []" by (rule lit_absent)
  qed
  then show ?thesis by (simp add: field_match_def field_matches_other group_matches_def)
qed

lemma findall_open_dquote: "dquote \<notin> set t \<Longrightarrow> findall (dquote # t) = findall t"
  by (simp add: findall_skip field_match_open_dquote)

lemma rstrip_snoc_space: "isspace c \<Longrightarrow> rstrip (s @ [c]) = rstrip s"
  by (simp add: rstrip_def)

lemma rstrip_id: "s = [] \<or> \<not> isspace (last s) \<Longrightarrow> rstrip s = s"
  by (cases s rule: rev_cases) (auto simp: rstrip_def)

lemma rstrip_cons: "\<not> isspace c \<Longrightarrow> rstrip (c # t) = c # rstrip t"
  by (simp add: rstrip_def dropWhile_append)

lemma set_rstrip: "set (rstrip t) \<subseteq> set t"
  by (auto simp: rstrip_def dest: set_dropWhileD)

lemma re_search_lit: "re_search (Lit c) s \<longleftrightarrow> c \<in> set s"
  by (induction s) auto

lemma quote_item_eq:
  "quote_item item = (if comma \<in> set item then [dquote] @ item @ [dquote] else item)"
  by (simp add: quote_item_def re_search_lit)

lemma join_nonempty: "fs \<noteq> [] \<Longrightarrow> last fs \<noteq> [] \<Longrightarrow> join sep fs \<noteq> []"
  by (induction sep fs rule: join.induct) auto

lemma last_join:
  "fs \<noteq> [] \<Longrightarrow> last fs \<noteq> [] \<Longrightarrow> last (join sep fs) = last (last fs)"
proof (induction sep fs rule: join.induct)
  case (3 sep x y ys)
  then have "join sep (y # ys) \<noteq> []" using join_nonempty[of "y # ys" sep] by simp
  with 3 show ?case by simp
qed simp_all

lemma findall_join:
  "(\<And>f. f \<in> set fs \<Longrightarrow> bare f \<and> hd f \<noteq> CHR ''s'') \<Longrightarrow> findall (join [comma] fs) = fs"
proof (induction "[comma]" fs rule: join.induct)
  case 1 show ?case by simp
next
  case (2 x)
  then show ?case using findall_run_end[of x 0] by simp
next
  case (3 x y ys)
  then show ?case using findall_run_comma[of x 0 "join [comma] (y # ys)"] by simp
qed

lemma rstrip_render:
  assumes "\<And>f. f \<in> set fs \<Longrightarrow> comma \<notin> set f" "fs = [] \<or> (last fs \<noteq> [] \<and> \<not> isspace (last (last fs)))"
  shows "rstrip (render_row fs) = join [comma] fs"
proof -
  from assms(1) have m: "map quote_item fs = fs"
    by (induction fs) (auto simp: quote_item_eq)
  have "rstrip (join [comma] fs) = join [comma] fs"
  proof (rule rstrip_id)
    show "join [comma] fs = [] \<or> \<not> isspace (last (join [comma] fs))"
    proof (cases "fs = []")
      case True then show ?thesis by simp
    next
      case False
      with assms(2) show ?thesis by (simp add: last_join)
    qed
  qed
  then show ?thesis by (simp add: render_row_def m rstrip_snoc_space)
qed

lemma roundtrip_bare:
  assumes "\<And>f. f \<in> set fs \<Longrightarrow> bare f \<and> hd f \<noteq> CHR ''s''"
  shows "reader_line (render_row fs) = fs"
proof -
  have "rstrip (render_row fs) = join [comma] fs"
  proof (rule rstrip_render)
    fix f assume "f \<in> set fs" with assms show "comma \<notin> set f" by (auto simp: bare_def)
  next
    show "fs = [] \<or> (last fs \<noteq> [] \<and> \<not> isspace (last (last fs)))"
    proof (cases "fs = []")
      case False
      then have "last fs \<in> set fs" by simp
      with assms have "bare (last fs)" by blast
      then show ?thesis by (simp add: bare_def)
    qed simp
  qed
  with findall_join[OF assms] show ?thesis by (simp add: reader_line_def)
qed

subsection \<open>Lines, characters of the fields, and the loop\<close>

lemma rstrip_append_nonspace: "\<not> isspace c \<Longrightarrow> rstrip (p @ c # r) = p @ c # rstrip r"
  by (simp add: rstrip_def dropWhile_append)

lemma reader_line_comma: "reader_line (p @ comma # r) = findall (p @ comma # rstrip r)"
  by (simp add: reader_line_def rstrip_append_nonspace)

lemma group_matches_chars:
  assumes "(g, rest) \<in> set (group_matches s)"
  shows "set g \<subseteq> set s \<and> set rest \<subseteq> set s"
proof -
  from assms obtain s2 where s2: "s2 \<in> set (matches field_group s)"
    and r: "rest \<in> set (matches field_suffix s2)" and g: "g = take (length s - length s2) s"
    by (auto simp: group_matches_def)
  from s2 r have "set rest \<subseteq> set s" using matches_set by blast
  moreover from g have "set g \<subseteq> set s" by (auto dest: in_set_takeD)
  ultimately show ?thesis by simp
qed

lemma field_match_chars:
  assumes "field_match s = Some (g, rest)"
  shows "set g \<subseteq> set s \<and> set rest \<subseteq> set s"
proof -
  from assms have "(g, rest) \<in> set (field_matches s)"
    by (auto simp: field_match_def split: list.splits)
  then obtain s1 where s1: "s1 \<in> set (matches field_prefix s)"
    and m: "(g, rest) \<in> set (group_matches s1)"
    by (auto simp: field_matches_def)
  from s1 have "set s1 \<subseteq> set s" by (rule matches_set)
  with group_matches_chars[OF m] show ?thesis by blast
qed

lemma findall_chars: "f \<in> set (findall s) \<Longrightarrow> set f \<subseteq> set s"
proof (induction s rule: findall.induct)
  case (1 s)
  show ?case
  proof (cases "field_match s")
    case None
    show ?thesis
    proof (cases s)
      case Nil with "1.prems" show ?thesis by simp
    next
      case (Cons c t)
      with None "1.prems" have "f \<in> set (findall t)" by (simp add: findall_skip)
      with "1.IH"(1)[OF None Cons] Cons show ?thesis by auto
    qed
  next
    case (Some m)
    obtain g rest where m: "m = (g, rest)" by (cases m)
    from Some m field_match_Some[of s g rest] have l: "length rest < length s" by auto
    from Some m field_match_chars[of s g rest]
    have c: "set g \<subseteq> set s" "set rest \<subseteq> set s" by auto
    from Some m "1.prems" have "f = g \<or> f \<in> set (findall rest)" by (simp add: findall_match)
    then show ?thesis using c "1.IH"(2)[OF Some m[symmetric] l] by auto
  qed
qed

lemma main_loop_append:
  "main_loop P field multiplier (xs @ ys) s =
     (case main_loop P field multiplier xs s of
        (Inl e, s') \<Rightarrow> (Inl e, s')
      | (Inr u, s') \<Rightarrow> main_loop P field multiplier ys s')"
  by (induction xs arbitrary: s) (auto split: prod.splits sum.splits)

lemma getitem_out_of_range:
  "int (length xs) < i + 1 \<or> i + 1 \<le> - int (length xs) \<Longrightarrow> getitem xs i = Inl IndexError"
  by (auto simp: getitem_def Let_def)

lemma convert_currency_Inr:
  assumes "convert_currency P v m loc symb st = (Inr converted, st')"
  shows "\<exists>orig_loc name name'.
    getlocale P st = Inr orig_loc \<and> c_setlocale P loc = Some name \<and>
    currency P (st\<lparr>lc_monetary := name, override_localeconv :=
      (override_localeconv st)(''p_cs_precedes'' \<mapsto> 1, ''n_cs_precedes'' \<mapsto> 1)\<rparr>)
      (multiply P v m) symb = Some converted \<and>
    c_setlocale P (normalize P (build_localename orig_loc)) = Some name' \<and>
    st' = st\<lparr>lc_monetary := name', override_localeconv :=
      (override_localeconv st)(''p_cs_precedes'' \<mapsto> 1, ''n_cs_precedes'' \<mapsto> 1)\<rparr>"
  using assms
  by (auto simp: convert_currency_def setlocale_monetary_def setlocale_monetary_pair_def Let_def
      split: sum.splits option.splits)

subsection \<open>Text before a double quote that is never closed\<close>

lemma lazy_results_before_quote:
  "comma \<notin> set u \<Longrightarrow> dquote \<notin> set u \<Longrightarrow> squote \<notin> set u \<Longrightarrow>
   s2 \<in> set (matches (LazyPlus (NoneOf [comma, dquote, squote])) (u @ dquote # t)) \<Longrightarrow>
   \<exists>u2. s2 = u2 @ dquote # t \<and> set u2 \<subseteq> set u"
proof (induction u)
  case Nil
  then show ?case by (simp add: lazy_cons)
next
  case (Cons c u)
  from Cons.prems have "s2 = u @ dquote # t
      \<or> s2 \<in> set (matches (LazyPlus (NoneOf [comma, dquote, squote])) (u @ dquote # t))"
    by (auto simp: lazy_cons split: if_splits)
  then show ?case
  proof
    assume "s2 = u @ dquote # t"
    then show ?thesis by auto
  next
    assume "s2 \<in> set (matches (LazyPlus (NoneOf [comma, dquote, squote])) (u @ dquote # t))"
    with Cons obtain u2 where "s2 = u2 @ dquote # t" "set u2 \<subseteq> set u" by auto
    then show ?thesis by auto
  qed
qed

lemma suffix_before_quote:
  assumes "comma \<notin> set u2"
  shows "matches field_suffix (u2 @ dquote # t) = []"
  using suffix_blocked[of "u2 @ [dquote]" t] assms by simp

lemma group_open_dquote:
  assumes "dquote \<notin> set t"
  shows "matches field_group (dquote # t) = []"
  unfolding group_dquote
proof (rule concat_map_nil)
  fix u assume "u \<in> set (matches (Star (Alt (NoneOf [dquote, backslash])
      (Seq (Lit backslash) AnyChar))) t)"
  then have "set u \<subseteq> set t" by (rule matches_set)
  with assms have "dquote \<notin> set u" by auto
  then show "matches (Lit dquote) u = []" by (rule lit_absent)
qed

lemma group_matches_before_open_dquote:
  assumes "comma \<notin> set u" "dquote \<notin> set u" "squote \<notin> set u" "dquote \<notin> set t"
  shows "group_matches (u @ dquote # t) = []"
proof (cases u)
  case Nil
  with group_open_dquote[OF assms(4)] show ?thesis by (simp add: group_matches_def)
next
  case (Cons c u')
  with assms have c: "c \<noteq> dquote" "c \<noteq> squote" by auto
  have "matches field_suffix s2 = []"
    if "s2 \<in> set (matches (LazyPlus (NoneOf [comma, dquote, squote])) (u @ dquote # t))" for s2
  proof -
    from lazy_results_before_quote[OF assms(1-3) that] obtain u2
      where "s2 = u2 @ dquote # t" "set u2 \<subseteq> set u" by blast
    with assms(1) show ?thesis using suffix_before_quote[of u2 t] by auto
  qed
  then have "concat (map (\<lambda>s2. map (\<lambda>s3. (take (length (u @ dquote # t) - length s2)
        (u @ dquote # t), s3)) (matches field_suffix s2))
      (matches (LazyPlus (NoneOf [comma, dquote, squote])) (u @ dquote # t))) = []"
    by (intro concat_map_nil) simp
  moreover have "matches field_group (u @ dquote # t) =
      matches (LazyPlus (NoneOf [comma, dquote, squote])) (u @ dquote # t)"
    using Cons c by (simp add: group_plain)
  ultimately show ?thesis by (simp add: group_matches_def)
qed

lemma prefix_results_before_quote:
  "s1 \<in> set (matches field_prefix (u @ dquote # t)) \<Longrightarrow>
   \<exists>u1. s1 = u1 @ dquote # t \<and> set u1 \<subseteq> set u"
proof (induction u)
  case Nil
  then show ?case by (simp add: prefix_other)
next
  case (Cons c u)
  show ?case
  proof (cases "c = CHR ''s''")
    case True
    with Cons.prems have "s1 = (c # u) @ dquote # t
        \<or> s1 \<in> set (matches field_prefix (u @ dquote # t))"
      by (auto simp: prefix_s)
    then show ?thesis
    proof
      assume "s1 = (c # u) @ dquote # t"
      then show ?thesis by blast
    next
      assume "s1 \<in> set (matches field_prefix (u @ dquote # t))"
      with Cons.IH obtain u1 where "s1 = u1 @ dquote # t" "set u1 \<subseteq> set u" by blast
      then show ?thesis by auto
    qed
  next
    case False
    with Cons.prems have "s1 = (c # u) @ dquote # t" by (simp add: prefix_other)
    then show ?thesis by blast
  qed
qed

lemma field_match_before_open_dquote:
  assumes "comma \<notin> set u" "dquote \<notin> set u" "squote \<notin> set u" "dquote \<notin> set t"
  shows "field_match (u @ dquote # t) = None"
proof -
  have "group_matches s1 = []" if "s1 \<in> set (matches field_prefix (u @ dquote # t))" for s1
  proof -
    from prefix_results_before_quote[OF that] obtain u1
      where u1: "s1 = u1 @ dquote # t" "set u1 \<subseteq> set u" by blast
    with assms have "comma \<notin> set u1" "dquote \<notin> set u1" "squote \<notin> set u1" by auto
    from group_matches_before_open_dquote[OF this assms(4)] u1 show ?thesis by simp
  qed
  then have "field_matches (u @ dquote # t) = []"
    unfolding field_matches_def by (intro concat_map_nil) simp
  then show ?thesis by (simp add: field_match_def)
qed

lemma findall_before_open_dquote:
  "comma \<notin> set u \<Longrightarrow> dquote \<notin> set u \<Longrightarrow> squote \<notin> set u \<Longrightarrow> dquote \<notin> set t \<Longrightarrow>
   findall (u @ dquote # t) = findall t"
proof (induction u)
  case Nil
  then show ?case by (simp add: findall_open_dquote)
next
  case (Cons c u)
  from Cons.prems have "field_match ((c # u) @ dquote # t) = None"
    by (intro field_match_before_open_dquote)
  then have "findall ((c # u) @ dquote # t) = findall (u @ dquote # t)"
    by (simp add: findall_skip)
  with Cons show ?case by simp
qed

section \<open>The claims\<close>

subsection \<open>C1: round trip of writer and reader\<close>

text \<open>
  Claim C1 as stated, the round trip for every record whose fields hold no comma and no
  quote character, fails: whitespace at the end of a field is taken by \<^verbatim>\<open>\s*\<close> after
  the group (and by \<^verbatim>\<open>rstrip\<close> at the end of the line), so the record
  \<^verbatim>\<open>["ab ", "c"]\<close> comes back as \<^verbatim>\<open>["ab", "c"]\<close>.
\<close>

theorem roundtrip_counterexample:
  "reader_line (render_row [''ab '', ''c'']) = [''ab'', ''c'']
   \<and> reader_line (render_row [''ab '', ''c'']) \<noteq> [''ab '', ''c'']"
  by code_simp

text \<open>
  Claim C1, amended: for every record whose fields are not empty, hold no comma and no
  quote character, do not end in whitespace and begin neither with the letter \<^verbatim>\<open>s\<close>
  nor with whitespace, reading the line \<^verbatim>\<open>writerow\<close> renders for the record gives the
  record back.
\<close>

theorem roundtrip_bare_fields:
  assumes "\<forall>f\<in>set r. bare f \<and> hd f \<noteq> CHR ''s'' \<and> \<not> isspace (hd f)"
  shows "reader_line (render_row r) = r"
  using assms by (intro roundtrip_bare) blast

text \<open>
  The round trip at the record \<^verbatim>\<open>["100", "Smith John", "250.5"]\<close>.
\<close>

theorem roundtrip_bare_fields_witness:
  "reader_line (render_row [''100'', ''Smith John'', ''250.5'']) =
     [''100'', ''Smith John'', ''250.5'']"
  by (rule roundtrip_bare_fields) (simp add: bare_def isspace_def)

subsection \<open>C2: quoted fields\<close>

text \<open>
  Claim C2 as stated fails: the quotes stand inside the capturing group, so a field between
  double quotes is returned with its quotes. The writer renders \<^verbatim>\<open>["a,b"]\<close> as the line
  \<^verbatim>\<open>"a,b"\<close>, and the reader returns that text, quotes included, not \<^verbatim>\<open>a,b\<close>.
\<close>

theorem quoted_field_counterexample:
  "reader_line (render_row [''a,b'']) = [[dquote, CHR ''a'', comma, CHR ''b'', dquote]]
   \<and> reader_line (render_row [''a,b'']) \<noteq> [''a,b'']"
  by code_simp

text \<open>
  Claim C2, amended: a field between double quotes whose content is made of characters
  other than the double quote and the backslash and of pairs of a backslash and any
  character but a line feed (an escaped quote among them) is returned as one field, with
  its two quotes kept: a comma inside it does not split it and an escaped quote does not
  end it, at the end of the line as before a comma. In particular, for such a content
  \<open>f\<close> with a comma in it, reading what the writer renders for \<open>[f]\<close> gives the single
  field \<open>f\<close> between double quotes.
\<close>

theorem quoted_field_keeps_quotes:
  assumes "escaped_body f"
  shows "reader_line (dquote # f @ [dquote]) = [dquote # f @ [dquote]]
    \<and> reader_line (dquote # f @ dquote # comma # r) = (dquote # f @ [dquote]) # reader_line r
    \<and> (comma \<in> set f \<longrightarrow> reader_line (render_row [f]) = [dquote # f @ [dquote]])"
proof -
  have id: "rstrip (dquote # f @ [dquote]) = dquote # f @ [dquote]"
    by (rule rstrip_id) simp
  have a: "reader_line (dquote # f @ [dquote]) = [dquote # f @ [dquote]]"
    using findall_quoted_end[OF assms, of 0] by (simp add: reader_line_def id)
  have b: "reader_line (dquote # f @ dquote # comma # r) =
      (dquote # f @ [dquote]) # reader_line r"
    using reader_line_comma[of "dquote # f @ [dquote]" r]
      findall_quoted_comma[OF assms, of 0 "rstrip r"]
    by (simp add: reader_line_def)
  have c: "comma \<in> set f \<longrightarrow> reader_line (render_row [f]) = [dquote # f @ [dquote]]"
  proof
    assume "comma \<in> set f"
    then have "render_row [f] = (dquote # f @ [dquote]) @ [newline]"
      by (simp add: render_row_def quote_item_eq)
    then have "rstrip (render_row [f]) = dquote # f @ [dquote]"
      using rstrip_snoc_space[of newline "dquote # f @ [dquote]"] id by simp
    with a show "reader_line (render_row [f]) = [dquote # f @ [dquote]]"
      by (simp add: reader_line_def id)
  qed
  from a b c show ?thesis by blast
qed

text \<open>
  At the field \<^verbatim>\<open>a,\"b\<close>, with a comma and an escaped quote.
\<close>

theorem quoted_field_keeps_quotes_witness:
  "reader_line (render_row [[CHR ''a'', comma, backslash, dquote, CHR ''b'']]) =
     [[dquote, CHR ''a'', comma, backslash, dquote, CHR ''b'', dquote]]"
  using quoted_field_keeps_quotes[of "[CHR ''a'', comma, backslash, dquote, CHR ''b'']"]
  by simp

subsection \<open>C3: the writer\<close>

text \<open>
  Claim C3: \<^verbatim>\<open>writerow\<close> appends to the output the fields of the row, in order, joined
  by single commas and followed by one line feed, where a field stands between double
  quotes if and only if it holds a comma, and stands as it is otherwise.
\<close>

theorem writerow_contract:
  "writerow row out =
     out @ join [comma]
       (map (\<lambda>item. if comma \<in> set item then [dquote] @ item @ [dquote] else item) row)
     @ [newline]
   \<and> ((quote_item item = [dquote] @ item @ [dquote]) = (comma \<in> set item))
   \<and> ((quote_item item = item) = (comma \<notin> set item))"
proof -
  have "quote_item = (\<lambda>item. if comma \<in> set item then [dquote] @ item @ [dquote] else item)"
    by (rule ext) (rule quote_item_eq)
  then have a: "writerow row out =
     out @ join [comma]
       (map (\<lambda>item. if comma \<in> set item then [dquote] @ item @ [dquote] else item) row)
     @ [newline]"
    by (simp add: writerow_def render_row_def)
  have b: "(quote_item item = [dquote] @ item @ [dquote]) = (comma \<in> set item)"
    by (simp add: quote_item_eq)
  have c: "(quote_item item = item) = (comma \<notin> set item)"
    by (simp add: quote_item_eq)
  from a b c show ?thesis by blast
qed

text \<open>
  At a row with a comma in its first field and a quote and a backslash in its second.
\<close>

theorem writerow_contract_witness:
  "writerow [''a,b'', [CHR ''c'', dquote, backslash]] ''x'' =
     [CHR ''x'', dquote, CHR ''a'', comma, CHR ''b'', dquote, comma, CHR ''c'', dquote,
      backslash, newline]"
  using writerow_contract[of "[''a,b'', [CHR ''c'', dquote, backslash]]" "''x''" "[]"]
  by simp

subsection \<open>C4: the reader returns fields for every line\<close>

text \<open>
  Claim C4 as stated fails in its second half: a double quote that is never closed does
  not give a field that holds the text after it. The pattern does not match at such a
  quote, the search moves on past it, and the text after it is read as on a line of its
  own: \<^verbatim>\<open>"a,b\<close> gives the two fields \<^verbatim>\<open>a\<close> and \<^verbatim>\<open>b\<close>, a quote alone gives no
  field, and in \<^verbatim>\<open>x"ab\<close> the \<^verbatim>\<open>x\<close> before the quote is lost.
\<close>

theorem open_quote_counterexample:
  "reader_line [dquote, CHR ''a'', comma, CHR ''b''] = [''a'', ''b'']
   \<and> reader_line [dquote] = []
   \<and> reader_line [CHR ''x'', dquote, CHR ''a'', CHR ''b''] = [''ab'']"
  by code_simp

text \<open>
  Claim C4, amended: the reader has no error to return; for every input it returns one
  sequence of fields per line, each field a non-empty text made of characters of the
  line. In particular, on a line with a double quote that is never closed, preceded by
  text without comma and quote character (or by nothing), the reader skips that text
  and the quote and returns the fields of the text after the quote, as of a line of its
  own: one field \<open>f\<close> where that text is a bare \<open>f\<close> that begins neither with the letter
  \<^verbatim>\<open>s\<close> nor with whitespace.
\<close>

theorem reader_open_dquote:
  "length (reader input_file) = length input_file
   \<and> (\<forall>f\<in>set (reader_line line). f \<noteq> [] \<and> set f \<subseteq> set line)
   \<and> (comma \<notin> set u \<and> dquote \<notin> set u \<and> squote \<notin> set u \<and> dquote \<notin> set t \<longrightarrow>
        reader_line (u @ dquote # t) = reader_line t)
   \<and> (comma \<notin> set u \<and> dquote \<notin> set u \<and> squote \<notin> set u \<and>
        bare f \<and> hd f \<noteq> CHR ''s'' \<and> \<not> isspace (hd f) \<longrightarrow>
        reader_line (u @ dquote # f) = [f])"
proof -
  have a: "\<forall>f\<in>set (reader_line line). f \<noteq> [] \<and> set f \<subseteq> set line"
    using findall_nonempty[of _ "rstrip line"] findall_chars[of _ "rstrip line"]
      set_rstrip[of line]
    unfolding reader_line_def by blast
  have b: "reader_line (u @ dquote # t) = reader_line t"
    if "comma \<notin> set u \<and> dquote \<notin> set u \<and> squote \<notin> set u \<and> dquote \<notin> set t" for t
  proof -
    from that set_rstrip[of t] have "dquote \<notin> set (rstrip t)" by blast
    with that have "findall (u @ dquote # rstrip t) = findall (rstrip t)"
      by (intro findall_before_open_dquote) auto
    then show ?thesis by (simp add: reader_line_def rstrip_append_nonspace)
  qed
  have c: "reader_line (u @ dquote # f) = [f]"
    if "comma \<notin> set u \<and> dquote \<notin> set u \<and> squote \<notin> set u \<and>
        bare f \<and> hd f \<noteq> CHR ''s'' \<and> \<not> isspace (hd f)"
  proof -
    from that have f: "bare f" "hd f \<noteq> CHR ''s''" by auto
    then have "rstrip f = f" by (intro rstrip_id) (simp add: bare_def)
    with findall_run_end[OF f, of 0] have "reader_line f = [f]" by (simp add: reader_line_def)
    moreover from f(1) have "dquote \<notin> set f" by (simp add: bare_def)
    ultimately show ?thesis using b[of f] that by simp
  qed
  from a b c show ?thesis by (simp add: reader_def)
qed

text \<open>
  At the lines \<^verbatim>\<open>x y"ab\<close> and \<^verbatim>\<open>"a,b\<close>.
\<close>

theorem reader_open_dquote_witness:
  "reader_line [CHR ''x'', CHR '' '', CHR ''y'', dquote, CHR ''a'', CHR ''b''] = [''ab'']
   \<and> reader_line [dquote, CHR ''a'', comma, CHR ''b''] = reader_line ''a,b''"
  using reader_open_dquote[of "[]" "[]" "''x y''" "[]" "''ab''"]
    reader_open_dquote[of "[]" "[]" "[]" "''a,b''" "[]"]
  by (simp add: bare_def isspace_def)

subsection \<open>C5: a field index out of range\<close>

text \<open>
  Claim C5 as stated fails at the index 0, which names no column counted from 1:
  \<^verbatim>\<open>row[0 - 1]\<close> is the last field of the row, and the run ends without an error.
\<close>

theorem index_zero_counterexample:
  "getitem [''5''] (0 - 1) = Inr ''5''
   \<and> fst (main sample_platform 0 2 [[CHR ''5'', newline]] c_locale) = Inr ()
   \<and> snd (snd (main sample_platform 0 2 [[CHR ''5'', newline]] c_locale)) =
       [dquote, CHR ''1'', CHR ''0'', comma, CHR ''0'', CHR ''0'', dquote, newline]"
  by code_simp

text \<open>
  Claim C5, amended: for every row of \<open>n\<close> fields and every index \<open>k\<close> with \<open>n < k\<close> or
  \<open>k \<le> - n\<close>, the access \<^verbatim>\<open>row[k-1]\<close> raises \<^verbatim>\<open>IndexError\<close>: the step on that row
  changes nothing, the loop ends with that error whatever rows follow, and what was
  written for the rows before it stays. An index \<open>k\<close> with \<open>- n < k \<le> 0\<close> raises no error:
  it selects the field \<open>k - 1 + n\<close>, counted from the end.
\<close>

theorem index_error_aborts:
  "(int (length row) < field \<or> field \<le> - int (length row) \<longrightarrow>
      process_row P field multiplier row s = (Inl IndexError, s)
      \<and> main_loop P field multiplier (row # rows) s = (Inl IndexError, s)
      \<and> (main_loop P field multiplier before s0 = (Inr (), s) \<longrightarrow>
           main_loop P field multiplier (before @ row # rows) s0 = (Inl IndexError, s)))
   \<and> (- int (length row) < field \<and> field \<le> 0 \<longrightarrow>
        getitem row (field - 1) = Inr (row ! nat (field - 1 + int (length row))))"
proof -
  have a: "process_row P field multiplier row s = (Inl IndexError, s)"
    if "int (length row) < field \<or> field \<le> - int (length row)"
  proof -
    from that have "getitem row (field - 1) = Inl IndexError"
      by (intro getitem_out_of_range) auto
    then show ?thesis by (cases s) (simp add: process_row_def)
  qed
  have b: "- int (length row) < field \<and> field \<le> 0 \<longrightarrow>
        getitem row (field - 1) = Inr (row ! nat (field - 1 + int (length row)))"
    by (auto simp: getitem_def Let_def)
  from a b show ?thesis by (simp add: main_loop_append)
qed

text \<open>
  A run on three lines with the index 3: the second line has two fields, the run ends
  there, and only the first line has been written.
\<close>

theorem index_error_aborts_witness:
  "main sample_platform 3 2 [''1,7,9'', ''5,10'', ''4,4,4''] c_locale =
     (Inl IndexError, snd (main sample_platform 3 2 [''1,7,9''] c_locale))
   \<and> snd (snd (main sample_platform 3 2 [''1,7,9''] c_locale)) =
       [CHR ''1'', comma, CHR ''7'', comma, dquote, CHR ''1'', CHR ''8'', comma, CHR ''0'',
        CHR ''0'', dquote, newline]
   \<and> getitem [''5'', ''10''] (0 - 1) = Inr ''10''"
proof -
  have r: "reader [''1,7,9'', ''5,10'', ''4,4,4''] =
      [[''1'', ''7'', ''9'']] @ [''5'', ''10''] # [[''4'', ''4'', ''4'']]"
    and r1: "reader [''1,7,9''] = [[''1'', ''7'', ''9'']]" by code_simp+
  have "fst (main sample_platform 3 2 [''1,7,9''] c_locale) = Inr ()" by code_simp
  then have m: "main_loop sample_platform 3 2 [[''1'', ''7'', ''9'']] (c_locale, []) =
      (Inr (), snd (main sample_platform 3 2 [''1,7,9''] c_locale))"
    unfolding main_def r1 by (metis prod.collapse)
  have o: "snd (snd (main sample_platform 3 2 [''1,7,9''] c_locale)) =
       [CHR ''1'', comma, CHR ''7'', comma, dquote, CHR ''1'', CHR ''8'', comma, CHR ''0'',
        CHR ''0'', dquote, newline]" by code_simp
  have g: "getitem [''5'', ''10''] (0 - 1) = Inr ''10''"
    using index_error_aborts[of "[''5'', ''10'']" 0] by simp
  have "main_loop sample_platform 3 2
      ([[''1'', ''7'', ''9'']] @ [''5'', ''10''] # [[''4'', ''4'', ''4'']]) (c_locale, []) =
      (Inl IndexError, snd (main sample_platform 3 2 [''1,7,9''] c_locale))"
    using index_error_aborts[of "[''5'', ''10'']" 3 sample_platform 2
        "snd (main sample_platform 3 2 [''1,7,9''] c_locale)" "[[''4'', ''4'', ''4'']]"
        "[[''1'', ''7'', ''9'']]" "(c_locale, [])"] m
    by simp
  then have "main sample_platform 3 2 [''1,7,9'', ''5,10'', ''4,4,4''] c_locale =
     (Inl IndexError, snd (main sample_platform 3 2 [''1,7,9''] c_locale))"
    unfolding main_def r by simp
  with o g show ?thesis by blast
qed

subsection \<open>C6: the step changes one field\<close>

text \<open>
  Claim C6: for every row and every index \<open>k\<close> from 1 to the length of the row, when
  \<^verbatim>\<open>float\<close> reads the field \<open>k\<close> and the conversion returns, the step writes the row in
  which the field \<open>k\<close> is the text \<^verbatim>\<open>locale.currency\<close> gives for the product of that
  number and the multiplier; the row keeps its length and every other field.
\<close>

theorem process_row_frame:
  assumes "1 \<le> field" "field \<le> int (length row)"
    and "float_of P (row ! nat (field - 1)) = Some v"
    and "convert_currency P v multiplier ''fr_FR'' False st = (Inr converted, st')"
  shows "process_row P field multiplier row (st, out) =
           (Inr (), (st', out @ render_row (row[nat (field - 1) := converted])))
    \<and> (\<exists>name. c_setlocale P ''fr_FR'' = Some name
          \<and> currency P (st\<lparr>lc_monetary := name, override_localeconv :=
               (override_localeconv st)(''p_cs_precedes'' \<mapsto> 1, ''n_cs_precedes'' \<mapsto> 1)\<rparr>)
             (multiply P v multiplier) False = Some converted)
    \<and> length (row[nat (field - 1) := converted]) = length row
    \<and> row[nat (field - 1) := converted] ! nat (field - 1) = converted
    \<and> (\<forall>j<length row. j \<noteq> nat (field - 1) \<longrightarrow>
          row[nat (field - 1) := converted] ! j = row ! j)"
proof -
  from assms(1,2) have g: "getitem row (field - 1) = Inr (row ! nat (field - 1))"
    and s: "setitem row (field - 1) converted = Inr (row[nat (field - 1) := converted])"
    by (auto simp: getitem_def setitem_def Let_def)
  have a: "process_row P field multiplier row (st, out) =
           (Inr (), (st', out @ render_row (row[nat (field - 1) := converted])))"
    by (simp add: process_row_def g s assms(3,4) writerow_def)
  from assms(1,2) have n: "nat (field - 1) < length row" by auto
  from convert_currency_Inr[OF assms(4)]
  have c: "\<exists>name. c_setlocale P ''fr_FR'' = Some name
          \<and> currency P (st\<lparr>lc_monetary := name, override_localeconv :=
               (override_localeconv st)(''p_cs_precedes'' \<mapsto> 1, ''n_cs_precedes'' \<mapsto> 1)\<rparr>)
             (multiply P v multiplier) False = Some converted"
    by blast
  from a c n show ?thesis by simp
qed

text \<open>
  At the row \<^verbatim>\<open>["5", "10", "x"]\<close>, the index 2 and the multiplier 2.
\<close>

theorem process_row_frame_witness:
  "process_row sample_platform 2 2 [''5'', ''10'', ''x''] (c_locale, []) =
     (Inr (), (snd (convert_currency sample_platform 10 2 ''fr_FR'' False c_locale),
       [CHR ''5'', comma, dquote, CHR ''2'', CHR ''0'', comma, CHR ''0'', CHR ''0'', dquote,
        comma, CHR ''x'', newline]))"
proof -
  have "fst (convert_currency sample_platform 10 2 ''fr_FR'' False c_locale) = Inr ''20,00''"
    by code_simp
  then have c: "convert_currency sample_platform 10 2 ''fr_FR'' False c_locale =
      (Inr ''20,00'', snd (convert_currency sample_platform 10 2 ''fr_FR'' False c_locale))"
    by (metis prod.collapse)
  have f: "float_of sample_platform ([''5'', ''10'', ''x''] ! nat (2 - 1)) = Some 10"
    by code_simp
  have r: "render_row [''5'', ''20,00'', ''x''] =
      [CHR ''5'', comma, dquote, CHR ''2'', CHR ''0'', comma, CHR ''0'', CHR ''0'', dquote,
        comma, CHR ''x'', newline]"
    by code_simp
  from process_row_frame[of 2 "[''5'', ''10'', ''x'']" sample_platform 10 2 c_locale
      "''20,00''" "snd (convert_currency sample_platform 10 2 ''fr_FR'' False c_locale)" "[]",
      OF _ _ f c]
  show ?thesis by (simp add: r)
qed

subsection \<open>C7: whitespace around a field\<close>

text \<open>
  Claim C7 at the lines \<^verbatim>\<open>a, b\<close> and \<^verbatim>\<open>a ,b\<close>: the whitespace after a field is
  matched outside the group, by \<^verbatim>\<open>\s*\<close>; the whitespace before a field is not, since
  the pattern starts with \<^verbatim>\<open>s*\<close>, and it stays in the field.
\<close>

theorem leading_space_kept:
  "reader_line ''a, b'' = [''a'', '' b''] \<and> reader_line ''a ,b'' = [''a'', ''b'']"
  by code_simp

subsection \<open>C8: the locale state after \<^verbatim>\<open>convert_currency\<close>\<close>

text \<open>
  Claim C8 as stated fails: the entries put into \<^verbatim>\<open>_override_localeconv\<close> are never
  taken out. From a state without them, a call that returns leaves
  \<^verbatim>\<open>p_cs_precedes\<close> at 1.
\<close>

theorem convert_currency_locale_counterexample:
  "fst (convert_currency sample_platform 5 3 ''fr_FR'' False c_locale) = Inr ''15,00''
   \<and> override_localeconv (snd (convert_currency sample_platform 5 3 ''fr_FR'' False c_locale))
        ''p_cs_precedes'' = Some 1
   \<and> override_localeconv c_locale ''p_cs_precedes'' = None"
  by code_simp

text \<open>
  Claim C8, amended: for every call of \<^verbatim>\<open>convert_currency\<close> that returns, from a state
  whose \<^verbatim>\<open>LC_MONETARY\<close> locale is the one \<^verbatim>\<open>setlocale\<close> establishes for the pair
  \<^verbatim>\<open>getlocale()\<close> returns (the name the C library reports for the normalized name built
  from that pair), the locale state after the call is the state before it with the two
  entries \<^verbatim>\<open>p_cs_precedes\<close> and \<^verbatim>\<open>n_cs_precedes\<close> of \<^verbatim>\<open>_override_localeconv\<close> set
  to 1: the locales of the categories are as before, the two entries stay.
\<close>

theorem convert_currency_locale:
  assumes "convert_currency P v m loc symb st = (Inr converted, st')"
    and "getlocale P st = Inr orig_loc"
    and "c_setlocale P (normalize P (build_localename orig_loc)) = Some (lc_monetary st)"
  shows "st' = st\<lparr>override_localeconv :=
           (override_localeconv st)(''p_cs_precedes'' \<mapsto> 1, ''n_cs_precedes'' \<mapsto> 1)\<rparr>"
  using convert_currency_Inr[OF assms(1)] assms(2,3) by auto

text \<open>
  At the call with the value 5 and the multiplier 3, from the C locale, where
  \<^verbatim>\<open>getlocale()\<close> returns the pair of \<^verbatim>\<open>None\<close> and \<^verbatim>\<open>None\<close>.
\<close>

theorem convert_currency_locale_witness:
  "getlocale sample_platform c_locale = Inr (None, None)
   \<and> snd (convert_currency sample_platform 5 3 ''fr_FR'' False c_locale) =
     c_locale\<lparr>override_localeconv :=
       (override_localeconv c_locale)(''p_cs_precedes'' \<mapsto> 1, ''n_cs_precedes'' \<mapsto> 1)\<rparr>"
proof -
  have "fst (convert_currency sample_platform 5 3 ''fr_FR'' False c_locale) = Inr ''15,00''"
    by code_simp
  then have r: "convert_currency sample_platform 5 3 ''fr_FR'' False c_locale =
      (Inr ''15,00'', snd (convert_currency sample_platform 5 3 ''fr_FR'' False c_locale))"
    by (metis prod.collapse)
  have g: "getlocale sample_platform c_locale = Inr (None, None)" by code_simp
  have c: "c_setlocale sample_platform (normalize sample_platform (build_localename (None, None)))
      = Some (lc_monetary c_locale)" by code_simp
  from convert_currency_locale[OF r g c] g show ?thesis by simp
qed

subsection \<open>C9: the letter \<^verbatim>\<open>s\<close> before a field\<close>

text \<open>
  Claim C9 at the lines \<^verbatim>\<open>ss\<close>, \<^verbatim>\<open>ss,a\<close> and \<^verbatim>\<open>stock\<close>: the pattern starts with
  \<^verbatim>\<open>s*\<close>, which takes the letters \<^verbatim>\<open>s\<close> before a field, so \<^verbatim>\<open>stock\<close> is
  returned as \<^verbatim>\<open>tock\<close>; where nothing but \<^verbatim>\<open>s\<close> stands before the comma or the end
  of the line, the group needs one character, the matcher gives the last \<^verbatim>\<open>s\<close> back to
  it, and the field is returned as \<^verbatim>\<open>s\<close>.
\<close>

theorem leading_s_run:
  "reader_line ''ss'' = [''s'']
   \<and> reader_line ''ss,a'' = [''s'', ''a'']
   \<and> reader_line ''stock'' = [''tock'']"
  by code_simp

subsection \<open>C10: no empty field\<close>

text \<open>
  Claim C10: no field the reader returns is empty. The empty line has no fields; a comma
  at the start of a line, a comma right after another comma and a comma at the end of the
  line add no field.
\<close>

theorem no_empty_fields:
  "[] \<notin> set (reader_line line)
   \<and> reader_line [] = []
   \<and> reader_line (comma # r) = reader_line r
   \<and> (bare f \<and> hd f \<noteq> CHR ''s'' \<longrightarrow>
        reader_line (f @ [comma]) = [f] \<and> reader_line (f @ comma # comma # r) = f # reader_line r)"
proof -
  have a: "[] \<notin> set (reader_line line)"
    using findall_nonempty[of "[]" "rstrip line"] by (auto simp: reader_line_def)
  have b: "reader_line [] = []" by (simp add: reader_line_def rstrip_def)
  have c: "reader_line (comma # r) = reader_line r"
    by (simp add: reader_line_def rstrip_cons findall_comma)
  have d: "bare f \<and> hd f \<noteq> CHR ''s'' \<longrightarrow>
        reader_line (f @ [comma]) = [f] \<and> reader_line (f @ comma # comma # r) = f # reader_line r"
  proof
    assume f: "bare f \<and> hd f \<noteq> CHR ''s''"
    have "reader_line (f @ [comma]) = findall (f @ [comma])"
      using reader_line_comma[of f "[]"] by (simp add: rstrip_def)
    with f findall_run_comma[of f 0 "[]"] have 1: "reader_line (f @ [comma]) = [f]" by simp
    have "reader_line (f @ comma # comma # r) = findall (f @ comma # rstrip (comma # r))"
      by (rule reader_line_comma)
    with f findall_run_comma[of f 0 "rstrip (comma # r)"] c
    have 2: "reader_line (f @ comma # comma # r) = f # reader_line r"
      by (simp add: reader_line_def)
    from 1 2 show "reader_line (f @ [comma]) = [f]
      \<and> reader_line (f @ comma # comma # r) = f # reader_line r" by simp
  qed
  from a b c d show ?thesis by blast
qed

text \<open>
  At the line \<^verbatim>\<open>a,,b,\<close>.
\<close>

theorem no_empty_fields_witness:
  "[] \<notin> set (reader_line ''a,,b,'') \<and> reader_line ''a,,b,'' = [''a'', ''b'']"
proof -
  have "reader_line ''b,'' = [''b'']"
    using no_empty_fields[of "[]" "[]" "''b''"] by (simp add: bare_def isspace_def)
  then show ?thesis
    using no_empty_fields[of "''a,,b,''" "''b,''" "''a''"] by (simp add: bare_def isspace_def)
qed

end
